theory Spec2Isabelle
  imports Main "HOL-Library.AList"
begin

section \<open>Control side: the WebSocket server of the desktop shell\<close>

text \<open>
  The control process keeps one module-level array, \<^verbatim>\<open>var clients = []\<close>. Three handlers
  touch the connections: \<^verbatim>\<open>wss.on("connection")\<close> pushes the new socket,
  \<^verbatim>\<open>ws.on("close")\<close> only writes a line to the console, and the two
  \<^verbatim>\<open>ipcMain.handle\<close> callbacks loop over the array and call \<^verbatim>\<open>send\<close>.

  A socket object is identified by a number. The \<^verbatim>\<open>ws\<close> package is not part of the
  repository, so what \<^verbatim>\<open>send\<close> does on a given socket is an input of the model: the list
  \<open>failing\<close> names the sockets on which the call throws. Console output is not modelled.
\<close>

type_synonym ws = nat

record hub =
  clients :: "ws list"
  closedLinks :: "ws list"
  sent :: "(ws \<times> string) list"

text \<open>
  \<open>clients\<close> is the array of the source. \<open>closedLinks\<close> belongs to the environment: the
  sockets whose close event has fired. \<open>sent\<close> lists the calls of \<^verbatim>\<open>send\<close> that returned.
\<close>

definition hub_init :: hub where
  "hub_init = \<lparr>clients = [], closedLinks = [], sent = []\<rparr>"

definition on_connection :: "ws \<Rightarrow> hub \<Rightarrow> hub" where
  "on_connection w h = h\<lparr>clients := clients h @ [w]\<rparr>"

text \<open>The body of the close handler is a single \<^verbatim>\<open>console.log\<close>.\<close>

definition on_close :: "ws \<Rightarrow> hub \<Rightarrow> hub" where
  "on_close w h = h"

datatype outcome = Returned | Threw ws

text \<open>
  \<^verbatim>\<open>for (let i in clients) { clients[i].send(cmd) }\<close> with no \<^verbatim>\<open>try\<close>: an exception of
  \<^verbatim>\<open>send\<close> leaves the loop and the handler; what was sent before stays sent.
\<close>

fun send_loop :: "ws list \<Rightarrow> string \<Rightarrow> ws list \<Rightarrow> hub \<Rightarrow> outcome \<times> hub" where
  "send_loop failing cmd [] h = (Returned, h)"
| "send_loop failing cmd (c # cs) h =
     (if c \<in> set failing then (Threw c, h)
      else send_loop failing cmd cs (h\<lparr>sent := sent h @ [(c, cmd)]\<rparr>))"

definition handle_start :: "ws list \<Rightarrow> hub \<Rightarrow> outcome \<times> hub" where
  "handle_start failing h = send_loop failing ''start'' (clients h) h"

definition handle_stop :: "ws list \<Rightarrow> hub \<Rightarrow> outcome \<times> hub" where
  "handle_stop failing h = send_loop failing ''stop'' (clients h) h"

datatype hub_event =
    Connection ws
  | LinkClosed ws
  | Start "ws list"
  | Stop "ws list"

text \<open>
  One turn of the control side's event loop. An exception that escapes an
  \<^verbatim>\<open>ipcMain.handle\<close> callback rejects the renderer's \<^verbatim>\<open>invoke\<close> promise; the hub itself
  goes on with the state the loop left behind.
\<close>

fun hub_step :: "hub_event \<Rightarrow> hub \<Rightarrow> hub" where
  "hub_step (Connection w) h = on_connection w h"
| "hub_step (LinkClosed w) h = on_close w (h\<lparr>closedLinks := closedLinks h @ [w]\<rparr>)"
| "hub_step (Start failing) h = snd (handle_start failing h)"
| "hub_step (Stop failing) h = snd (handle_stop failing h)"

definition hub_run :: "hub_event list \<Rightarrow> hub \<Rightarrow> hub" where
  "hub_run es h = fold hub_step es h"

fun accepted :: "hub_event list \<Rightarrow> ws list" where
  "accepted [] = []"
| "accepted (Connection w # es) = w # accepted es"
| "accepted (e # es) = accepted es"

section \<open>Agent side: the extension's service worker\<close>

text \<open>
  Every call of \<^verbatim>\<open>connect\<close> allocates a socket and two local variables, \<^verbatim>\<open>tabStates\<close>
  and \<^verbatim>\<open>recording\<close>, that the handlers installed by that call close over. A
  \<open>closure\<close> is that triple. The socket's lifecycle follows the three states of the
  data model; the handlers do not read it, the browser drives it. A socket is \<open>OPEN\<close>
  from its open event to its close event, the closing handshake included.
\<close>

datatype readyState = CONNECTING | OPEN | CLOSED

datatype Command = RECORDING | IDLE

type_synonym tabId = int

record closure =
  link :: readyState
  recording :: bool
  tabStates :: "(tabId \<times> string) list"

text \<open>
  The agent: the closures in the order \<^verbatim>\<open>connect\<close> created them, the listeners
  registered on \<^verbatim>\<open>chrome.tabs.onActivated\<close> and \<^verbatim>\<open>chrome.tabs.onRemoved\<close> (each is the
  index of the closure it captured), the badge text, the number of armed
  \<^verbatim>\<open>setTimeout\<close> callbacks, the \<^verbatim>\<open>chrome.tabs.sendMessage\<close> calls made so far, the
  \<^verbatim>\<open>onActivated\<close> listener runs suspended at their first \<^verbatim>\<open>await\<close> (with the message
  each will send when resumed), and the \<^verbatim>\<open>chrome.tabs.query\<close> calls whose callback has
  not run yet.
\<close>

record agent =
  conns :: "closure list"
  onActivated :: "nat list"
  onRemoved :: "nat list"
  badge :: string
  timers :: nat
  outbox :: "(tabId \<times> string) list"
  pending :: "(tabId \<times> string) list"
  queries :: "nat list"

definition upd_conn :: "nat \<Rightarrow> (closure \<Rightarrow> closure) \<Rightarrow> agent \<Rightarrow> agent" where
  "upd_conn i f s = s\<lparr>conns := (conns s)[i := f (conns s ! i)]\<rparr>"

definition connect :: "agent \<Rightarrow> agent" where
  "connect s = s\<lparr>conns := conns s @ [\<lparr>link = CONNECTING, recording = False, tabStates = []\<rparr>]\<rparr>"

text \<open>
  The module body ends with \<^verbatim>\<open>connect()\<close>. No badge text has been set before; the
  browser's default is the empty text.
\<close>

definition agent0 :: agent where
  "agent0 = \<lparr>conns = [], onActivated = [], onRemoved = [], badge = [], timers = 0,
     outbox = [], pending = [], queries = []\<rparr>"

definition init :: agent where
  "init = connect agent0"

definition ws_onopen :: "nat \<Rightarrow> agent \<Rightarrow> agent" where
  "ws_onopen i s =
     s\<lparr>badge := ''ON'', onActivated := onActivated s @ [i], onRemoved := onRemoved s @ [i]\<rparr>"

text \<open>
  The \<^verbatim>\<open>onActivated\<close> listener is an \<^verbatim>\<open>async\<close> function. It runs up to its first
  \<^verbatim>\<open>await\<close> in the turn of the event: it returns on a falsy tab id, stores \<^verbatim>\<open>'ON'\<close>,
  reads \<^verbatim>\<open>recording\<close> and makes the first \<^verbatim>\<open>sendMessage\<close> call. The rest of the body,
  the second \<^verbatim>\<open>sendMessage\<close>, runs when the first promise is fulfilled and never when it
  is rejected (there is no \<^verbatim>\<open>try\<close>). The second \<^verbatim>\<open>if (!tabId) return\<close> of the source
  is behind the first one and never taken.
\<close>

definition tab_onActivated :: "tabId \<Rightarrow> nat \<Rightarrow> agent \<Rightarrow> agent" where
  "tab_onActivated t i s =
     (if t = 0 then s
      else let s1 = upd_conn i (\<lambda>c. c\<lparr>tabStates := AList.update t ''ON'' (tabStates c)\<rparr>) s
           in if recording (conns s1 ! i)
              then s1\<lparr>outbox := outbox s1 @ [(t, ''activateInspector'')],
                      pending := pending s1 @ [(t, ''activateNotification'')]\<rparr>
              else s1\<lparr>outbox := outbox s1 @ [(t, ''deactivateInspector'')],
                      pending := pending s1 @ [(t, ''deactivateNotification'')]\<rparr>)"

definition tab_onRemoved :: "tabId \<Rightarrow> nat \<Rightarrow> agent \<Rightarrow> agent" where
  "tab_onRemoved t i s =
     (upd_conn i (\<lambda>c. c\<lparr>tabStates := AList.delete t (tabStates c)\<rparr>) s)\<lparr>badge := ''OFF''\<rparr>"

text \<open>
  \<^verbatim>\<open>ws.onmessage\<close> assigns \<^verbatim>\<open>recording\<close> and calls \<^verbatim>\<open>chrome.tabs.query\<close>; the callback
  runs in a later turn with the tabs the browser found.
\<close>

definition ws_onmessage :: "nat \<Rightarrow> string \<Rightarrow> agent \<Rightarrow> agent" where
  "ws_onmessage i d s =
     (upd_conn i (\<lambda>c. c\<lparr>recording := (d = ''start'')\<rparr>) s)\<lparr>queries := queries s @ [i]\<rparr>"

text \<open>
  The callback's loop. A tab's \<^verbatim>\<open>id\<close> is optional; on a falsy one the callback
  returns. The \<^verbatim>\<open>sendMessage\<close> calls are not awaited: both are made whatever becomes of
  the promises.
\<close>

fun dispatch :: "bool \<Rightarrow> tabId option list \<Rightarrow> (tabId \<times> string) list" where
  "dispatch r [] = []"
| "dispatch r (None # ts) = []"
| "dispatch r (Some t # ts) =
     (if t = 0 then []
      else if r then (t, ''activateInspector'') # (t, ''activateNotification'') # dispatch r ts
      else (t, ''deactivateInspector'') # (t, ''deactivateNotification'') # dispatch r ts)"

definition query_callback :: "nat \<Rightarrow> tabId option list \<Rightarrow> agent \<Rightarrow> agent" where
  "query_callback i ts s = s\<lparr>outbox := outbox s @ dispatch (recording (conns s ! i)) ts\<rparr>"

definition ws_onclose :: "nat \<Rightarrow> agent \<Rightarrow> agent" where
  "ws_onclose i s = s\<lparr>badge := ''OFF'', timers := Suc (timers s)\<rparr>"

text \<open>
  \<^verbatim>\<open>ws.onerror\<close> logs and calls \<^verbatim>\<open>ws.close()\<close>; the close event that follows is an
  event of its own.
\<close>

definition ws_onerror :: "nat \<Rightarrow> agent \<Rightarrow> agent" where
  "ws_onerror i s = s"

definition remove_nth :: "nat \<Rightarrow> 'a list \<Rightarrow> 'a list" where
  "remove_nth n xs = take n xs @ drop (Suc n) xs"

datatype event =
    Open nat
  | Message nat string
  | Queried nat "tabId option list"
  | Close nat
  | Error nat
  | Timer
  | Activated tabId
  | Removed tabId
  | Resolved nat
  | Rejected nat

text \<open>
  One turn of the agent's event loop. The result is \<open>None\<close> when the browser cannot
  deliver the event in that state: an open event needs a connecting socket, a frame an
  open one, a close event a socket not yet closed, a timer an armed timeout, a query
  result an outstanding query, a settled promise a suspended listener.
\<close>

fun step :: "event \<Rightarrow> agent \<Rightarrow> agent option" where
  "step (Open i) s =
     (if i < length (conns s) \<and> link (conns s ! i) = CONNECTING
      then Some (ws_onopen i (upd_conn i (\<lambda>c. c\<lparr>link := OPEN\<rparr>) s)) else None)"
| "step (Message i d) s =
     (if i < length (conns s) \<and> link (conns s ! i) = OPEN
      then Some (ws_onmessage i d s) else None)"
| "step (Queried n ts) s =
     (if n < length (queries s)
      then Some (query_callback (queries s ! n) ts (s\<lparr>queries := remove_nth n (queries s)\<rparr>))
      else None)"
| "step (Close i) s =
     (if i < length (conns s) \<and> link (conns s ! i) \<noteq> CLOSED
      then Some (ws_onclose i (upd_conn i (\<lambda>c. c\<lparr>link := CLOSED\<rparr>) s)) else None)"
| "step (Error i) s =
     (if i < length (conns s) \<and> link (conns s ! i) \<noteq> CLOSED
      then Some (ws_onerror i s) else None)"
| "step Timer s =
     (if 0 < timers s then Some (connect (s\<lparr>timers := timers s - 1\<rparr>)) else None)"
| "step (Activated t) s = Some (fold (tab_onActivated t) (onActivated s) s)"
| "step (Removed t) s = Some (fold (tab_onRemoved t) (onRemoved s) s)"
| "step (Resolved n) s =
     (if n < length (pending s)
      then Some (s\<lparr>outbox := outbox s @ [pending s ! n], pending := remove_nth n (pending s)\<rparr>)
      else None)"
| "step (Rejected n) s =
     (if n < length (pending s)
      then Some (s\<lparr>pending := remove_nth n (pending s)\<rparr>) else None)"

fun run :: "event list \<Rightarrow> agent \<Rightarrow> agent option" where
  "run [] s = Some s"
| "run (e # es) s = (case step e s of None \<Rightarrow> None | Some s' \<Rightarrow> run es s')"

subsection \<open>What the claims speak about\<close>

text \<open>
  The Session of a connection is its \<^verbatim>\<open>recording\<close> flag read as a command. The current
  connection is the one the latest \<^verbatim>\<open>connect\<close> call made; \<open>cur\<close> is meant for states
  with at least one closure, which every state from \<open>init\<close> on is.
\<close>

definition currentCommand :: "closure \<Rightarrow> Command" where
  "currentCommand c = (if recording c then RECORDING else IDLE)"

definition cur :: "agent \<Rightarrow> closure" where
  "cur s = last (conns s)"

definition session :: "agent \<Rightarrow> Command" where
  "session s = currentCommand (cur s)"

definition transport :: "agent \<Rightarrow> readyState" where
  "transport s = link (cur s)"

text \<open>The tabs whose record holds \<^verbatim>\<open>'ON'\<close>, the registry's only word for an active tab.\<close>

definition active_tabs :: "closure \<Rightarrow> tabId list" where
  "active_tabs c = map fst (filter (\<lambda>p. snd p = ''ON'') (tabStates c))"

text \<open>The payloads of the frames a trace delivers to connection \<open>i\<close>, in order.\<close>

fun frames_of :: "nat \<Rightarrow> event list \<Rightarrow> string list" where
  "frames_of i [] = []"
| "frames_of i (Message j d # es) = (if j = i then d # frames_of i es else frames_of i es)"
| "frames_of i (e # es) = frames_of i es"

text \<open>The connections a trace opens, the number of its frames and of its query callbacks.\<close>

fun opened :: "event list \<Rightarrow> nat list" where
  "opened [] = []"
| "opened (Open i # es) = i # opened es"
| "opened (e # es) = opened es"

fun num_frames :: "event list \<Rightarrow> nat" where
  "num_frames [] = 0"
| "num_frames (Message i d # es) = Suc (num_frames es)"
| "num_frames (e # es) = num_frames es"

fun num_callbacks :: "event list \<Rightarrow> nat" where
  "num_callbacks [] = 0"
| "num_callbacks (Queried n ts # es) = Suc (num_callbacks es)"
| "num_callbacks (e # es) = num_callbacks es"

text \<open>
  What a trace does to the registry of connection \<open>i\<close>, read off the events alone: once
  the connection has opened (its listeners are registered), a tab-activated event with a
  non-zero id adds the tab unless it is there, and a tab-removed event takes it out.
  The pair is the flag "the connection has opened" and the tabs of the registry, in the
  order they were added.
\<close>

fun track :: "nat \<Rightarrow> event \<Rightarrow> bool \<times> tabId list \<Rightarrow> bool \<times> tabId list" where
  "track i (Open j) (reg, xs) = (reg \<or> j = i, xs)"
| "track i (Activated t) (reg, xs) =
     (reg, if reg \<and> t \<noteq> 0 \<and> t \<notin> set xs then xs @ [t] else xs)"
| "track i (Removed t) (reg, xs) = (reg, if reg then removeAll t xs else xs)"
| "track i e p = p"

definition tracked :: "nat \<Rightarrow> event list \<Rightarrow> tabId list" where
  "tracked i es = snd (fold (track i) es (False, []))"

text \<open>The registry of connection \<open>i\<close>, for \<open>i\<close> a connection of the state.\<close>

definition registry :: "nat \<Rightarrow> agent \<Rightarrow> tabId list" where
  "registry i s = active_tabs (conns s ! i)"

text \<open>
  A state agrees with such a pair: the two listener lists go together, the flag says
  whether the connection's listeners are registered, and the registry holds the tabs of
  the pair; a connection not yet made has no listeners and no tabs.
\<close>

definition tracks :: "agent \<Rightarrow> nat \<Rightarrow> bool \<times> tabId list \<Rightarrow> bool" where
  "tracks s i p =
     (onRemoved s = onActivated s \<and> (fst p \<longleftrightarrow> i \<in> set (onActivated s))
      \<and> (if i < length (conns s) then map fst (tabStates (conns s ! i)) = snd p
          else snd p = [] \<and> \<not> fst p))"

subsection \<open>The specification's wording, for comparison\<close>

text \<open>
  The specification recognises two tokens and speaks of the command of the last
  recognised token of a sequence; \<open>None\<close> stands for "no recognised token".
\<close>

definition spec_command :: "string \<Rightarrow> Command option" where
  "spec_command d =
     (if d = ''start'' then Some RECORDING else if d = ''stop'' then Some IDLE else None)"

definition spec_last_recognized :: "string list \<Rightarrow> Command option" where
  "spec_last_recognized ds =
     (case filter (\<lambda>d. spec_command d \<noteq> None) ds of
        [] \<Rightarrow> None
      | f # fs \<Rightarrow> spec_command (last (f # fs)))"

text \<open>
  The specification's registry invariant: at most one active record under
  \<open>RECORDING\<close>, none under \<open>IDLE\<close>.
\<close>

definition spec_registry_invariant :: "closure \<Rightarrow> bool" where
  "spec_registry_invariant c =
     (case currentCommand c of
        RECORDING \<Rightarrow> length (active_tabs c) \<le> 1
      | IDLE \<Rightarrow> active_tabs c = [])"

subsection \<open>Invariants of the agent\<close>

text \<open>
  \<^verbatim>\<open>connect\<close> runs once at start and then only from a timeout armed by a close
  handler, and a socket closes once; so every socket but the latest is closed, and a
  timeout is armed exactly while the latest socket is closed. The badge reads
  \<^verbatim>\<open>'ON'\<close> only while that socket is open.
\<close>

definition links :: "agent \<Rightarrow> readyState list" where
  "links s = map link (conns s)"

definition agent_inv :: "agent \<Rightarrow> bool" where
  "agent_inv s =
     (links s \<noteq> [] \<and> set (butlast (links s)) \<subseteq> {CLOSED}
      \<and> timers s = (if last (links s) = CLOSED then 1 else 0)
      \<and> (badge s = ''ON'' \<longrightarrow> last (links s) = OPEN)
      \<and> set (onActivated s) \<subseteq> {..<length (conns s)})"

text \<open>
  A registry holds \<^verbatim>\<open>'ON'\<close> and nothing else, under non-zero tab ids, each id once.
\<close>

definition registry_inv :: "closure \<Rightarrow> bool" where
  "registry_inv c =
     ((\<forall>p\<in>set (tabStates c). snd p = ''ON'' \<and> fst p \<noteq> 0)
      \<and> distinct (map fst (tabStates c)))"

section \<open>The broadcast hub\<close>

lemma send_loop_sent:
  "sent (snd (send_loop failing cmd cs h)) =
     sent h @ map (\<lambda>c. (c, cmd)) (takeWhile (\<lambda>c. c \<notin> set failing) cs)"
  by (induction cs arbitrary: h) auto

lemma send_loop_clients: "clients (snd (send_loop failing cmd cs h)) = clients h"
  by (induction cs arbitrary: h) auto

lemma send_loop_outcome:
  "fst (send_loop failing cmd cs h) =
     (case dropWhile (\<lambda>c. c \<notin> set failing) cs of [] \<Rightarrow> Returned | c # _ \<Rightarrow> Threw c)"
  by (induction cs arbitrary: h) auto

lemma hub_step_clients: "clients (hub_step e h) = clients h @ accepted [e]"
  by (cases e)
    (auto simp: on_connection_def on_close_def handle_start_def handle_stop_def
      send_loop_clients)

lemma accepted_append: "accepted (es @ fs) = accepted es @ accepted fs"
  by (induction es rule: accepted.induct) auto

lemma hub_run_clients: "clients (hub_run es h) = clients h @ accepted es"
  unfolding hub_run_def
proof (induction es arbitrary: h)
  case Nil
  show ?case by simp
next
  case (Cons e es)
  have "accepted (e # es) = accepted [e] @ accepted es"
    using accepted_append [of "[e]" es] by simp
  then show ?case
    using Cons [of "hub_step e h"] by (simp add: hub_step_clients)
qed

text \<open>
  C3, as the code has it. The close handler leaves the \<^verbatim>\<open>clients\<close> array alone, and
  nothing else removes from it: after any sequence of events the array holds every
  socket ever accepted, in the order of acceptance, closed or not.
\<close>

theorem clients_never_shrinks:
  "clients (hub_step (LinkClosed w) h) = clients h
   \<and> clients (hub_run es hub_init) = accepted es"
  by (simp add: hub_run_clients on_close_def hub_init_def)

text \<open>
  C3 fails as stated: socket 1 is accepted and closes; it is still in the array, and
  the next broadcast calls \<^verbatim>\<open>send\<close> on it.
\<close>

theorem closed_link_stays_in_clients:
  "clients (hub_run [Connection 1, LinkClosed 1] hub_init) = [1]
   \<and> closedLinks (hub_run [Connection 1, LinkClosed 1] hub_init) = [1]
   \<and> sent (hub_run [Connection 1, LinkClosed 1, Start []] hub_init) = [(1, ''start'')]"
  by (simp add: hub_run_def hub_init_def on_connection_def on_close_def handle_start_def)

text \<open>
  C7, as the code has it. A broadcast calls \<^verbatim>\<open>send\<close> once on each socket of the array,
  in order, up to the first socket on which the call throws; the exception ends the
  loop. When no call throws, every socket of the array gets the command once and the
  handler returns.
\<close>

theorem broadcast_stops_at_first_throw:
  "sent (snd (handle_start failing h)) =
     sent h @ map (\<lambda>c. (c, ''start'')) (takeWhile (\<lambda>c. c \<notin> set failing) (clients h))
   \<and> sent (snd (handle_stop failing h)) =
     sent h @ map (\<lambda>c. (c, ''stop'')) (takeWhile (\<lambda>c. c \<notin> set failing) (clients h))
   \<and> (set (clients h) \<inter> set failing = {} \<longrightarrow>
        fst (handle_start failing h) = Returned
        \<and> sent (snd (handle_start failing h)) = sent h @ map (\<lambda>c. (c, ''start'')) (clients h))"
proof -
  have all: "takeWhile (\<lambda>c. c \<notin> set failing) (clients h) = clients h
      \<and> dropWhile (\<lambda>c. c \<notin> set failing) (clients h) = []"
    if "set (clients h) \<inter> set failing = {}"
    using that by (auto simp: takeWhile_eq_all_conv)
  have "fst (handle_start failing h) = Returned
      \<and> sent (snd (handle_start failing h)) = sent h @ map (\<lambda>c. (c, ''start'')) (clients h)"
    if "set (clients h) \<inter> set failing = {}"
    by (simp add: handle_start_def send_loop_sent send_loop_outcome all [OF that])
  then show ?thesis
    by (simp add: handle_start_def handle_stop_def send_loop_sent)
qed

theorem broadcast_stops_at_first_throw_witness:
  "set (clients \<lparr>clients = [1, 2, 3], closedLinks = [], sent = []\<rparr>) \<inter> set [] = {}
   \<and> handle_start [] \<lparr>clients = [1, 2, 3], closedLinks = [], sent = []\<rparr> =
       (Returned, \<lparr>clients = [1, 2, 3], closedLinks = [],
          sent = [(1, ''start''), (2, ''start''), (3, ''start'')]\<rparr>)"
  using broadcast_stops_at_first_throw
    [where failing = "[]" and h = "\<lparr>clients = [1, 2, 3], closedLinks = [], sent = []\<rparr>"]
  by (simp add: handle_start_def)

text \<open>
  C7 fails as stated: with three sockets in the array and a \<^verbatim>\<open>send\<close> that throws on
  the first, the handler ends with the exception and sockets 2 and 3 get nothing.
\<close>

theorem throw_on_first_link_starves_the_rest:
  "handle_start [1] \<lparr>clients = [1, 2, 3], closedLinks = [], sent = []\<rparr> =
     (Threw 1, \<lparr>clients = [1, 2, 3], closedLinks = [], sent = []\<rparr>)"
  by (simp add: handle_start_def)

section \<open>The agent: what each handler leaves alone\<close>

lemmas agent_defs = init_def agent0_def connect_def upd_conn_def ws_onopen_def
  ws_onmessage_def query_callback_def ws_onclose_def ws_onerror_def tab_onActivated_def
  tab_onRemoved_def remove_nth_def

lemmas view_defs = session_def cur_def currentCommand_def transport_def active_tabs_def

lemma nth_update_same_field:
  assumes "\<And>c. g (f c) = g c"
  shows "map g (xs[i := f (xs ! i)]) = map g xs"
proof (cases "i < length xs")
  case True
  then show ?thesis by (simp add: map_update assms list_update_same_conv)
next
  case False
  then show ?thesis by (simp add: not_less list_update_beyond)
qed

lemma upd_conn_fields [simp]:
  "onActivated (upd_conn i f s) = onActivated s"
  "onRemoved (upd_conn i f s) = onRemoved s"
  "badge (upd_conn i f s) = badge s"
  "timers (upd_conn i f s) = timers s"
  "outbox (upd_conn i f s) = outbox s"
  "pending (upd_conn i f s) = pending s"
  "queries (upd_conn i f s) = queries s"
  "length (conns (upd_conn i f s)) = length (conns s)"
  by (simp_all add: upd_conn_def)

lemma upd_conn_map:
  "(\<And>c. g (f c) = g c) \<Longrightarrow> map g (conns (upd_conn i f s)) = map g (conns s)"
  by (simp add: upd_conn_def nth_update_same_field)

lemma upd_conn_nth:
  "j < length (conns s) \<Longrightarrow>
     conns (upd_conn i f s) ! j = (if j = i then f (conns s ! j) else conns s ! j)"
  by (simp add: upd_conn_def)

lemma activated_fields [simp]:
  "onActivated (tab_onActivated t i s) = onActivated s"
  "onRemoved (tab_onActivated t i s) = onRemoved s"
  "badge (tab_onActivated t i s) = badge s"
  "timers (tab_onActivated t i s) = timers s"
  "queries (tab_onActivated t i s) = queries s"
  "length (conns (tab_onActivated t i s)) = length (conns s)"
  by (simp_all add: tab_onActivated_def Let_def)

lemma activated_link [simp]:
  "map link (conns (tab_onActivated t i s)) = map link (conns s)"
  by (simp add: tab_onActivated_def Let_def upd_conn_map)

lemma activated_recording [simp]:
  "map recording (conns (tab_onActivated t i s)) = map recording (conns s)"
  by (simp add: tab_onActivated_def Let_def upd_conn_map)

lemma removed_fields [simp]:
  "onActivated (tab_onRemoved t i s) = onActivated s"
  "onRemoved (tab_onRemoved t i s) = onRemoved s"
  "badge (tab_onRemoved t i s) = ''OFF''"
  "timers (tab_onRemoved t i s) = timers s"
  "queries (tab_onRemoved t i s) = queries s"
  "outbox (tab_onRemoved t i s) = outbox s"
  "pending (tab_onRemoved t i s) = pending s"
  "length (conns (tab_onRemoved t i s)) = length (conns s)"
  by (simp_all add: tab_onRemoved_def)

lemma removed_link [simp]:
  "map link (conns (tab_onRemoved t i s)) = map link (conns s)"
  by (simp add: tab_onRemoved_def upd_conn_map)

lemma removed_recording [simp]:
  "map recording (conns (tab_onRemoved t i s)) = map recording (conns s)"
  by (simp add: tab_onRemoved_def upd_conn_map)

lemma fold_activated_fields [simp]:
  "onActivated (fold (tab_onActivated t) is s) = onActivated s"
  "onRemoved (fold (tab_onActivated t) is s) = onRemoved s"
  "badge (fold (tab_onActivated t) is s) = badge s"
  "timers (fold (tab_onActivated t) is s) = timers s"
  "queries (fold (tab_onActivated t) is s) = queries s"
  "length (conns (fold (tab_onActivated t) is s)) = length (conns s)"
  "map link (conns (fold (tab_onActivated t) is s)) = map link (conns s)"
  "map recording (conns (fold (tab_onActivated t) is s)) = map recording (conns s)"
  by (induction "is" arbitrary: s; simp)+

lemma fold_removed_fields [simp]:
  "onActivated (fold (tab_onRemoved t) is s) = onActivated s"
  "onRemoved (fold (tab_onRemoved t) is s) = onRemoved s"
  "timers (fold (tab_onRemoved t) is s) = timers s"
  "queries (fold (tab_onRemoved t) is s) = queries s"
  "outbox (fold (tab_onRemoved t) is s) = outbox s"
  "pending (fold (tab_onRemoved t) is s) = pending s"
  "length (conns (fold (tab_onRemoved t) is s)) = length (conns s)"
  "map link (conns (fold (tab_onRemoved t) is s)) = map link (conns s)"
  "map recording (conns (fold (tab_onRemoved t) is s)) = map recording (conns s)"
  by (induction "is" arbitrary: s; simp)+

lemma fold_removed_badge:
  "badge (fold (tab_onRemoved t) is s) = (if is = [] then badge s else ''OFF'')"
  by (induction "is" arbitrary: s rule: rev_induct) simp_all

lemma map_eq_nth: "map g xs = map g ys \<Longrightarrow> i < length xs \<Longrightarrow> g (xs ! i) = g (ys ! i)"
  by (metis length_map nth_map)

lemma step_length: "step e s = Some s' \<Longrightarrow> length (conns s) \<le> length (conns s')"
  by (cases e)
    (auto simp: ws_onopen_def ws_onmessage_def query_callback_def ws_onclose_def
      ws_onerror_def connect_def split: if_splits)

lemma step_recording:
  assumes "step e s = Some s'" and "i < length (conns s)"
  shows "recording (conns s' ! i) =
     (case e of Message j d \<Rightarrow> if j = i then d = ''start'' else recording (conns s ! i)
      | _ \<Rightarrow> recording (conns s ! i))"
proof (cases e)
  case (Activated t)
  then have "map recording (conns s') = map recording (conns s)"
    using assms by auto
  then show ?thesis using assms Activated by (auto dest: map_eq_nth)
next
  case (Removed t)
  then have "map recording (conns s') = map recording (conns s)"
    using assms by auto
  then show ?thesis using assms Removed by (auto dest: map_eq_nth)
qed (use assms in \<open>auto simp: ws_onopen_def ws_onmessage_def query_callback_def ws_onclose_def
      ws_onerror_def connect_def upd_conn_def nth_append nth_list_update split: if_splits\<close>)

lemma run_recording:
  "run es s = Some s' \<Longrightarrow> i < length (conns s) \<Longrightarrow>
     i < length (conns s') \<and>
     recording (conns s' ! i) =
       foldl (\<lambda>r d. d = ''start'') (recording (conns s ! i)) (frames_of i es)"
proof (induction es arbitrary: s)
  case Nil
  then show ?case by simp
next
  case (Cons e es)
  from Cons.prems obtain s1 where s1: "step e s = Some s1" and r: "run es s1 = Some s'"
    by (auto split: option.splits)
  have len: "i < length (conns s1)"
    using step_length [OF s1] Cons.prems(2) by simp
  show ?case
    using Cons.IH [OF r len] step_recording [OF s1 Cons.prems(2)]
    by (cases e) auto
qed

lemma foldl_last_frame:
  "ds \<noteq> [] \<Longrightarrow> foldl (\<lambda>r d. d = ''start'') r ds = (last ds = ''start'')"
  by (induction ds arbitrary: r) auto

lemma last_filter_keep: "xs \<noteq> [] \<Longrightarrow> P (last xs) \<Longrightarrow> last (filter P xs) = last xs"
  by (cases xs rule: rev_cases) auto


section \<open>The Session of a connection\<close>

text \<open>
  C1, as the code has it. \<^verbatim>\<open>ws.onmessage\<close> assigns \<^verbatim>\<open>recording\<close> from the frame it
  is handling and from nothing else, so after any trace that delivers at least one
  frame to a connection, whatever else happens in between, the connection's Session is
  the command of the last frame it received: \<open>RECORDING\<close> for \<^verbatim>\<open>"start"\<close>, \<open>IDLE\<close> for
  any other payload. When that last frame is a recognised token, this is the command
  of the last recognised token, however many frames or duplicates came before.
\<close>

theorem last_frame_wins:
  "run es s = Some s' \<Longrightarrow> i < length (conns s) \<Longrightarrow> frames_of i es \<noteq> [] \<Longrightarrow>
     currentCommand (conns s' ! i) =
       (if last (frames_of i es) = ''start'' then RECORDING else IDLE)
     \<and> (spec_command (last (frames_of i es)) \<noteq> None \<longrightarrow>
          spec_last_recognized (frames_of i es) = Some (currentCommand (conns s' ! i)))"
proof -
  assume r: "run es s = Some s'" and i: "i < length (conns s)" and ne: "frames_of i es \<noteq> []"
  let ?ds = "frames_of i es"
  have cmd: "recording (conns s' ! i) = (last ?ds = ''start'')"
    using run_recording [OF r i] foldl_last_frame [OF ne] by simp
  have spec: "spec_last_recognized ?ds = spec_command (last ?ds)"
    if "spec_command (last ?ds) \<noteq> None"
  proof -
    let ?fs = "filter (\<lambda>d. spec_command d \<noteq> None) ?ds"
    have "last ?ds \<in> set ?ds" using ne by simp
    then have "?fs \<noteq> []" using that by (auto simp: filter_empty_conv)
    moreover have "last ?fs = last ?ds" using that ne by (simp add: last_filter_keep)
    ultimately show ?thesis
      by (cases ?fs) (auto simp: spec_last_recognized_def)
  qed
  show ?thesis
    using cmd spec by (auto simp: currentCommand_def spec_command_def)
qed

theorem last_frame_wins_witness:
  "run [Open 0, Message 0 ''stop'', Message 0 ''start'', Message 0 ''start''] init \<noteq> None
   \<and> frames_of 0 [Open 0, Message 0 ''stop'', Message 0 ''start'', Message 0 ''start'']
       = [''stop'', ''start'', ''start'']
   \<and> map_option session
       (run [Open 0, Message 0 ''stop'', Message 0 ''start'', Message 0 ''start''] init)
       = Some RECORDING
   \<and> spec_last_recognized [''stop'', ''start'', ''start''] = Some RECORDING"
  using last_frame_wins
    [where es = "[Open 0, Message 0 ''stop'', Message 0 ''start'', Message 0 ''start'']"
      and s = init and i = 0
      and s' = "the (run [Open 0, Message 0 ''stop'', Message 0 ''start'', Message 0 ''start''] init)"]
  by (simp add: agent_defs view_defs spec_last_recognized_def spec_command_def)

text \<open>
  C1 fails as stated: after the frames \<^verbatim>\<open>"start"\<close>, \<^verbatim>\<open>"pause"\<close> the last recognised
  token is \<^verbatim>\<open>"start"\<close>, whose command is \<open>RECORDING\<close>, and the Session is \<open>IDLE\<close>.
\<close>

theorem unrecognized_last_frame_overrides_start:
  "frames_of 0 [Open 0, Message 0 ''start'', Message 0 ''pause''] = [''start'', ''pause'']
   \<and> spec_last_recognized [''start'', ''pause''] = Some RECORDING
   \<and> map_option session (run [Open 0, Message 0 ''start'', Message 0 ''pause''] init) = Some IDLE"
  by (simp add: agent_defs view_defs spec_last_recognized_def spec_command_def)

text \<open>
  C4. Each call of \<^verbatim>\<open>connect\<close>, the first one and the one a timeout makes after a
  close, starts the new connection's Session at \<open>IDLE\<close>, and the Session stays \<open>IDLE\<close>
  through every trace that delivers no frame to that connection.
\<close>

theorem connect_resets_session:
  "session (connect s) = IDLE
   \<and> (step Timer s = Some sa \<longrightarrow> session sa = IDLE)
   \<and> (run es (connect s) = Some s' \<longrightarrow> frames_of (length (conns s)) es = [] \<longrightarrow>
        currentCommand (conns s' ! length (conns s)) = IDLE)"
proof -
  have new: "recording (conns (connect s) ! length (conns s)) = False"
    by (simp add: connect_def)
  have "currentCommand (conns s' ! length (conns s)) = IDLE"
    if "run es (connect s) = Some s'" and "frames_of (length (conns s)) es = []"
    using run_recording [OF that(1), of "length (conns s)"] that(2) new
    by (simp add: connect_def currentCommand_def)
  then show ?thesis
    by (auto simp: session_def cur_def currentCommand_def connect_def split: if_splits)
qed

theorem connect_resets_session_witness:
  "map_option session (run [Open 0, Message 0 ''start'', Close 0] init) = Some RECORDING
   \<and> map_option session (run [Open 0, Message 0 ''start'', Close 0, Timer] init) = Some IDLE
   \<and> frames_of 1 [Open 1, Activated 4, Message 0 ''start''] = []
   \<and> map_option session
        (run [Open 0, Message 0 ''start'', Close 0, Timer, Open 1, Activated 4] init) = Some IDLE"
  using connect_resets_session
    [where s = "(the (run [Open 0, Message 0 ''start'', Close 0] init))\<lparr>timers := 0\<rparr>"
      and sa = "the (run [Open 0, Message 0 ''start'', Close 0, Timer] init)"
      and es = "[Open 1, Activated 4]"
      and s' = "the (run [Open 0, Message 0 ''start'', Close 0, Timer, Open 1, Activated 4] init)"]
  by (simp add: agent_defs view_defs)

text \<open>
  C6. A frame whose payload is neither \<^verbatim>\<open>"start"\<close> nor \<^verbatim>\<open>"stop"\<close> is handled like any
  other: the handler completes, the connection's Session is \<open>IDLE\<close>, and the query
  callback it scheduled runs and issues deactivations only.
\<close>

theorem unrecognized_token_is_idle:
  "i < length (conns s) \<Longrightarrow> link (conns s ! i) = OPEN \<Longrightarrow> d \<noteq> ''start'' \<Longrightarrow> d \<noteq> ''stop'' \<Longrightarrow>
     step (Message i d) s = Some (ws_onmessage i d s)
     \<and> currentCommand (conns (ws_onmessage i d s) ! i) = IDLE
     \<and> step (Queried (length (queries s)) ts) (ws_onmessage i d s) =
         Some ((ws_onmessage i d s)\<lparr>queries := queries s,
                 outbox := outbox s @ dispatch False ts\<rparr>)"
  by (simp add: ws_onmessage_def upd_conn_def currentCommand_def query_callback_def
      remove_nth_def)

theorem unrecognized_token_is_idle_witness:
  "map_option session (run [Open 0, Message 0 ''start''] init) = Some RECORDING
   \<and> map_option session (run [Open 0, Message 0 ''start'', Message 0 ''pause''] init) = Some IDLE
   \<and> map_option outbox
       (run [Open 0, Message 0 ''start'', Message 0 ''pause'', Queried 1 [Some 5]] init)
       = Some [(5, ''deactivateInspector''), (5, ''deactivateNotification'')]"
  using unrecognized_token_is_idle
    [where i = 0 and s = "the (run [Open 0, Message 0 ''start''] init)" and d = "''pause''"
      and ts = "[Some 5]"]
  by (simp add: agent_defs view_defs)

section \<open>Reachable states of the agent\<close>

lemma step_links:
  "step e s = Some s' \<Longrightarrow>
     links s' =
       (case e of Open i \<Rightarrow> (links s)[i := OPEN] | Close i \<Rightarrow> (links s)[i := CLOSED]
        | Timer \<Rightarrow> links s @ [CONNECTING] | _ \<Rightarrow> links s)"
  by (cases e)
    (auto simp: links_def ws_onopen_def ws_onmessage_def query_callback_def ws_onclose_def
      ws_onerror_def connect_def upd_conn_def map_update nth_update_same_field
      list_update_same_conv split: if_splits)

lemma step_badge:
  "step e s = Some s' \<Longrightarrow>
     badge s' =
       (case e of Open i \<Rightarrow> ''ON'' | Close i \<Rightarrow> ''OFF''
        | Removed t \<Rightarrow> (if onRemoved s = [] then badge s else ''OFF'')
        | _ \<Rightarrow> badge s)"
  by (cases e)
    (auto simp: ws_onopen_def ws_onmessage_def query_callback_def ws_onclose_def
      ws_onerror_def connect_def fold_removed_badge split: if_splits)

lemma step_timers:
  "step e s = Some s' \<Longrightarrow>
     timers s' = (case e of Close i \<Rightarrow> Suc (timers s) | Timer \<Rightarrow> timers s - 1 | _ \<Rightarrow> timers s)"
  by (cases e)
    (auto simp: ws_onopen_def ws_onmessage_def query_callback_def ws_onclose_def
      ws_onerror_def connect_def split: if_splits)

lemma step_onActivated:
  "step e s = Some s' \<Longrightarrow> onActivated s' = onActivated s @ opened [e]"
  by (cases e)
    (auto simp: ws_onopen_def ws_onmessage_def query_callback_def ws_onclose_def
      ws_onerror_def connect_def split: if_splits)

lemma step_enabled:
  "step (Open i) s = Some s' \<Longrightarrow> i < length (links s) \<and> links s ! i = CONNECTING"
  "step (Close i) s = Some s' \<Longrightarrow> i < length (links s) \<and> links s ! i \<noteq> CLOSED"
  "step Timer s = Some s' \<Longrightarrow> 0 < timers s"
  by (auto simp: links_def split: if_splits)

lemma only_last_alive:
  assumes "set (butlast ls) \<subseteq> {CLOSED}" and "i < length ls" and "ls ! i \<noteq> CLOSED"
  shows "i = length ls - 1"
proof (rule ccontr)
  assume "i \<noteq> length ls - 1"
  then have "i < length (butlast ls)" using assms(2) by simp
  then have "butlast ls ! i \<in> set (butlast ls)" by (rule nth_mem)
  moreover have "butlast ls ! i = ls ! i"
    using \<open>i < length (butlast ls)\<close> by (simp add: nth_butlast)
  ultimately show False using assms(1,3) by auto
qed

lemma update_last:
  "ls \<noteq> [] \<Longrightarrow> butlast (ls[length ls - 1 := x]) = butlast ls \<and> last (ls[length ls - 1 := x]) = x"
  by (cases ls rule: rev_cases) (auto simp: list_update_append)

lemma agent_inv_init: "agent_inv init"
  by (simp add: agent_inv_def links_def init_def agent0_def connect_def)

lemma agent_inv_step:
  assumes "agent_inv s" and st: "step e s = Some s'"
  shows "agent_inv s'"
proof -
  have ne: "links s \<noteq> []" and bl: "set (butlast (links s)) \<subseteq> {CLOSED}"
    and tm: "timers s = (if last (links s) = CLOSED then 1 else 0)"
    and bd: "badge s = ''ON'' \<longrightarrow> last (links s) = OPEN"
    and ls: "set (onActivated s) \<subseteq> {..<length (conns s)}"
    using assms(1) by (auto simp: agent_inv_def)
  have len: "length (conns s) \<le> length (conns s')" by (rule step_length [OF st])
  have lst: "set (onActivated s') \<subseteq> {..<length (conns s')}"
  proof (cases e)
    case (Open i)
    then show ?thesis
      using st ls by (auto simp: ws_onopen_def split: if_splits)
  qed (use step_onActivated [OF st] ls len in auto)
  show ?thesis
  proof (cases e)
    case (Open i)
    then have i: "i < length (links s)" "links s ! i = CONNECTING"
      using step_enabled(1) st by auto
    then have "i = length (links s) - 1"
      using only_last_alive [OF bl, of i] by simp
    then show ?thesis
      using Open step_links [OF st] step_badge [OF st] step_timers [OF st] update_last [OF ne, of OPEN]
        ne bl tm i lst
      by (auto simp: agent_inv_def last_conv_nth)
  next
    case (Close i)
    then have i: "i < length (links s)" "links s ! i \<noteq> CLOSED"
      using step_enabled(2) st by auto
    then have "i = length (links s) - 1"
      using only_last_alive [OF bl, of i] by simp
    then show ?thesis
      using Close step_links [OF st] step_badge [OF st] step_timers [OF st] update_last [OF ne, of CLOSED]
        ne bl tm i lst
      by (auto simp: agent_inv_def last_conv_nth)
  next
    case Timer
    then have "0 < timers s" using step_enabled(3) st by auto
    then have cl: "last (links s) = CLOSED" using tm by (auto split: if_splits)
    have "set (links s) \<subseteq> {CLOSED}"
      using bl cl ne by (cases "links s" rule: rev_cases) auto
    then show ?thesis
      using Timer step_links [OF st] step_badge [OF st] step_timers [OF st] tm cl bd lst
      by (auto simp: agent_inv_def)
  qed (use step_links [OF st] step_badge [OF st] step_timers [OF st] ne bl tm bd lst
        in \<open>auto simp: agent_inv_def\<close>)
qed

lemma agent_inv_run: "run es s = Some s' \<Longrightarrow> agent_inv s \<Longrightarrow> agent_inv s'"
proof (induction es arbitrary: s)
  case Nil
  then show ?case by simp
next
  case (Cons e es)
  then show ?case by (auto split: option.splits dest: agent_inv_step)
qed

lemma opened_append: "opened (es @ fs) = opened es @ opened fs"
  by (induction es rule: opened.induct) auto

lemma run_onActivated: "run es s = Some s' \<Longrightarrow> onActivated s' = onActivated s @ opened es"
proof (induction es arbitrary: s)
  case Nil
  then show ?case by simp
next
  case (Cons e es)
  from Cons.prems obtain s1 where s1: "step e s = Some s1" and r: "run es s1 = Some s'"
    by (auto split: option.splits)
  have "opened (e # es) = opened [e] @ opened es"
    using opened_append [of "[e]" es] by simp
  then show ?case
    using Cons.IH [OF r] step_onActivated [OF s1] by simp
qed

lemma activated_outbox:
  "t \<noteq> 0 \<Longrightarrow>
     outbox (tab_onActivated t i s) =
       outbox s @ [(t, if recording (conns s ! i) then ''activateInspector''
                       else ''deactivateInspector'')]
     \<and> pending (tab_onActivated t i s) =
       pending s @ [(t, if recording (conns s ! i) then ''activateNotification''
                        else ''deactivateNotification'')]"
  by (cases "i < length (conns s)")
    (simp_all add: tab_onActivated_def upd_conn_def Let_def list_update_beyond)

lemma fold_activated_outbox:
  "t \<noteq> 0 \<Longrightarrow> set js \<subseteq> {..<length (conns s)} \<Longrightarrow>
     outbox (fold (tab_onActivated t) js s) =
       outbox s @ map (\<lambda>i. (t, if recording (conns s ! i) then ''activateInspector''
                               else ''deactivateInspector'')) js
     \<and> pending (fold (tab_onActivated t) js s) =
       pending s @ map (\<lambda>i. (t, if recording (conns s ! i) then ''activateNotification''
                                else ''deactivateNotification'')) js"
proof (induction js arbitrary: s)
  case Nil
  then show ?case by simp
next
  case (Cons j js)
  let ?s1 = "tab_onActivated t j s"
  have same: "recording (conns ?s1 ! i) = recording (conns s ! i)" if "i \<in> set js" for i
  proof -
    have "i < length (conns ?s1)" using that Cons.prems(2) by auto
    then show ?thesis using map_eq_nth [OF activated_recording, of i t j s] by simp
  qed
  have "set js \<subseteq> {..<length (conns ?s1)}" using Cons.prems(2) by simp
  from Cons.IH [OF Cons.prems(1) this] activated_outbox [OF Cons.prems(1), of j s]
  show ?case by (simp add: same cong: map_cong)
qed

section \<open>The badge\<close>

text \<open>
  C9, as the code has it. In every state the agent reaches, a badge that reads
  \<^verbatim>\<open>'ON'\<close> means the current socket is open. The open handler sets the badge to
  \<^verbatim>\<open>'ON'\<close>, the close handler to \<^verbatim>\<open>'OFF'\<close>, and so does every \<^verbatim>\<open>onRemoved\<close> listener
  when a tab is removed; no other event changes it.
\<close>

theorem badge_on_implies_open:
  "(run es init = Some s \<longrightarrow> badge s = ''ON'' \<longrightarrow> transport s = OPEN)
   \<and> (step e sa = Some sb \<longrightarrow>
        badge sb =
          (case e of Open i \<Rightarrow> ''ON'' | Close i \<Rightarrow> ''OFF''
           | Removed t \<Rightarrow> (if onRemoved sa = [] then badge sa else ''OFF'')
           | _ \<Rightarrow> badge sa))"
proof -
  have "transport s = OPEN" if r: "run es init = Some s" and b: "badge s = ''ON''"
  proof -
    have inv: "agent_inv s" using agent_inv_run [OF r agent_inv_init] .
    then have "conns s \<noteq> []" by (auto simp: agent_inv_def links_def)
    then have "transport s = last (links s)"
      by (simp add: transport_def cur_def links_def last_map)
    then show ?thesis using inv b by (simp add: agent_inv_def)
  qed
  then show ?thesis using step_badge [of e sa sb] by blast
qed

theorem badge_on_implies_open_witness:
  "map_option badge (run [Open 0, Activated 3] init) = Some ''ON''
   \<and> map_option transport (run [Open 0, Activated 3] init) = Some OPEN
   \<and> map_option badge (run [Open 0, Activated 3, Close 0] init) = Some ''OFF''
   \<and> map_option transport (run [Open 0, Activated 3, Close 0] init) = Some CLOSED"
  using badge_on_implies_open
    [where es = "[Open 0, Activated 3]" and s = "the (run [Open 0, Activated 3] init)"
      and e = "Close 0" and sa = "the (run [Open 0, Activated 3] init)"
      and sb = "the (run [Open 0, Activated 3, Close 0] init)"]
  by (simp add: agent_defs view_defs)

text \<open>
  C9 fails as stated: the connection opens and a tab is removed; the badge reads
  \<^verbatim>\<open>'OFF'\<close> and the socket is still open.
\<close>

theorem tab_removal_turns_badge_off_while_open:
  "map_option badge (run [Open 0] init) = Some ''ON''
   \<and> map_option badge (run [Open 0, Removed 3] init) = Some ''OFF''
   \<and> map_option transport (run [Open 0, Removed 3] init) = Some OPEN"
  by (simp add: agent_defs view_defs)

section \<open>Listeners pile up across reconnects\<close>

text \<open>
  C10. The \<^verbatim>\<open>onActivated\<close> listeners of a reachable state are the connections opened
  so far, one per open event and in that order; none is ever removed. A tab-activated
  event with a non-zero id runs each of them: listener \<open>i\<close> sends the inspector message
  chosen by the \<^verbatim>\<open>recording\<close> flag of closure \<open>i\<close>, and suspends before the notification
  message chosen by the same flag. The flag of the current connection plays no part for
  the listeners of earlier connections.
\<close>

theorem one_listener_per_open:
  "run es init = Some s \<Longrightarrow>
     onActivated s = opened es \<and> length (onActivated s) = length (opened es)
     \<and> (t \<noteq> 0 \<longrightarrow> step (Activated t) s = Some s' \<longrightarrow>
          outbox s' =
            outbox s @ map (\<lambda>i. (t, if recording (conns s ! i) then ''activateInspector''
                                    else ''deactivateInspector'')) (opened es)
          \<and> pending s' =
            pending s @ map (\<lambda>i. (t, if recording (conns s ! i) then ''activateNotification''
                                     else ''deactivateNotification'')) (opened es))"
proof -
  assume r: "run es init = Some s"
  have inv: "agent_inv s" using agent_inv_run [OF r agent_inv_init] .
  have reg: "onActivated s = opened es"
    using run_onActivated [OF r] by (simp add: agent_defs)
  have rng: "set (onActivated s) \<subseteq> {..<length (conns s)}"
    using inv by (simp add: agent_inv_def)
  show ?thesis
    using reg fold_activated_outbox [OF _ rng, of t] by auto
qed

theorem one_listener_per_open_witness:
  "opened [Open 0, Message 0 ''start'', Close 0, Timer, Open 1] = [0, 1]
   \<and> map_option onActivated (run [Open 0, Message 0 ''start'', Close 0, Timer, Open 1] init)
       = Some [0, 1]
   \<and> map_option session (run [Open 0, Message 0 ''start'', Close 0, Timer, Open 1] init)
       = Some IDLE
   \<and> map_option outbox
       (run [Open 0, Message 0 ''start'', Close 0, Timer, Open 1, Activated 7] init)
       = Some [(7, ''activateInspector''), (7, ''deactivateInspector'')]"
  using one_listener_per_open
    [where es = "[Open 0, Message 0 ''start'', Close 0, Timer, Open 1]"
      and s = "the (run [Open 0, Message 0 ''start'', Close 0, Timer, Open 1] init)"
      and t = 7
      and s' = "the (run [Open 0, Message 0 ''start'', Close 0, Timer, Open 1, Activated 7] init)"]
  by (simp add: agent_defs view_defs)

section \<open>The tab registry\<close>

lemma update_set: "set (AList.update k v al) \<subseteq> insert (k, v) (set al)"
  by (induction al) auto

lemma update_mem: "(k, v) \<in> set (AList.update k v al)"
  by (induction al) auto

lemma registry_inv_update:
  "registry_inv c \<Longrightarrow> t \<noteq> 0 \<Longrightarrow>
     registry_inv (c\<lparr>tabStates := AList.update t ''ON'' (tabStates c)\<rparr>)"
  using update_set [of t "''ON''" "tabStates c"]
  by (auto simp: registry_inv_def distinct_update)

lemma delete_set: "set (AList.delete k al) \<subseteq> set al"
  by (auto simp: AList.delete_eq)

lemma registry_inv_delete:
  "registry_inv c \<Longrightarrow> registry_inv (c\<lparr>tabStates := AList.delete t (tabStates c)\<rparr>)"
  using delete_set [of t "tabStates c"]
  by (auto simp: registry_inv_def distinct_delete)

lemma registry_inv_other [simp]:
  "registry_inv (c\<lparr>link := l\<rparr>) = registry_inv c"
  "registry_inv (c\<lparr>recording := r\<rparr>) = registry_inv c"
  by (simp_all add: registry_inv_def)

lemma upd_conn_all:
  assumes "\<And>c. P c \<Longrightarrow> P (f c)" and "\<forall>c\<in>set (conns s). P c"
  shows "\<forall>c\<in>set (conns (upd_conn i f s)). P c"
proof (cases "i < length (conns s)")
  case True
  then have "P (f (conns s ! i))" using assms by simp
  then show ?thesis
    using assms(2) set_update_subset_insert [of "conns s" i "f (conns s ! i)"]
    by (auto simp: upd_conn_def)
next
  case False
  then show ?thesis using assms(2) by (simp add: upd_conn_def list_update_beyond)
qed

lemma registry_activated:
  "\<forall>c\<in>set (conns s). registry_inv c \<Longrightarrow> \<forall>c\<in>set (conns (tab_onActivated t i s)). registry_inv c"
proof (cases "t = 0")
  case True
  assume "\<forall>c\<in>set (conns s). registry_inv c"
  then show ?thesis using True by (simp add: tab_onActivated_def)
next
  case False
  assume a: "\<forall>c\<in>set (conns s). registry_inv c"
  have "\<forall>c\<in>set (conns (upd_conn i
      (\<lambda>c. c\<lparr>tabStates := AList.update t ''ON'' (tabStates c)\<rparr>) s)). registry_inv c"
    by (rule upd_conn_all [OF _ a]) (simp add: registry_inv_update False)
  then show ?thesis using False by (simp add: tab_onActivated_def Let_def)
qed

lemma registry_removed:
  assumes a: "\<forall>c\<in>set (conns s). registry_inv c"
  shows "\<forall>c\<in>set (conns (tab_onRemoved t i s)). registry_inv c"
proof -
  have "\<forall>c\<in>set (conns (upd_conn i
      (\<lambda>c. c\<lparr>tabStates := AList.delete t (tabStates c)\<rparr>) s)). registry_inv c"
    by (rule upd_conn_all [OF _ a]) (simp add: registry_inv_delete)
  then show ?thesis by (simp add: tab_onRemoved_def)
qed

lemma registry_fold_activated:
  "\<forall>c\<in>set (conns s). registry_inv c \<Longrightarrow>
     \<forall>c\<in>set (conns (fold (tab_onActivated t) js s)). registry_inv c"
proof (induction js arbitrary: s)
  case Nil
  then show ?case by simp
next
  case (Cons j js)
  show ?case using Cons.IH [OF registry_activated [OF Cons.prems]] by simp
qed

lemma registry_fold_removed:
  "\<forall>c\<in>set (conns s). registry_inv c \<Longrightarrow>
     \<forall>c\<in>set (conns (fold (tab_onRemoved t) js s)). registry_inv c"
proof (induction js arbitrary: s)
  case Nil
  then show ?case by simp
next
  case (Cons j js)
  show ?case using Cons.IH [OF registry_removed [OF Cons.prems]] by simp
qed

lemma registry_step:
  assumes a: "\<forall>c\<in>set (conns s). registry_inv c" and st: "step e s = Some s'"
  shows "\<forall>c\<in>set (conns s'). registry_inv c"
proof (cases e)
  case (Open i)
  have "\<forall>c\<in>set (conns (upd_conn i (\<lambda>c. c\<lparr>link := OPEN\<rparr>) s)). registry_inv c"
    by (rule upd_conn_all [OF _ a]) simp
  then show ?thesis using Open st by (auto simp: ws_onopen_def split: if_splits)
next
  case (Message i d)
  have "\<forall>c\<in>set (conns (upd_conn i (\<lambda>c. c\<lparr>recording := (d = ''start'')\<rparr>) s)). registry_inv c"
    by (rule upd_conn_all [OF _ a]) simp
  then show ?thesis using Message st by (auto simp: ws_onmessage_def split: if_splits)
next
  case (Close i)
  have "\<forall>c\<in>set (conns (upd_conn i (\<lambda>c. c\<lparr>link := CLOSED\<rparr>) s)). registry_inv c"
    by (rule upd_conn_all [OF _ a]) simp
  then show ?thesis using Close st by (auto simp: ws_onclose_def split: if_splits)
next
  case Timer
  then show ?thesis
    using a st by (auto simp: connect_def registry_inv_def split: if_splits)
next
  case (Activated t)
  then show ?thesis using st registry_fold_activated [OF a] by auto
next
  case (Removed t)
  then show ?thesis using st registry_fold_removed [OF a] by auto
qed (use a st in \<open>auto simp: query_callback_def ws_onerror_def split: if_splits\<close>)

lemma registry_run:
  "run es s = Some s' \<Longrightarrow> \<forall>c\<in>set (conns s). registry_inv c \<Longrightarrow>
     \<forall>c\<in>set (conns s'). registry_inv c"
proof (induction es arbitrary: s)
  case Nil
  then show ?case by simp
next
  case (Cons e es)
  from Cons.prems(1) obtain s1 where s1: "step e s = Some s1" and r: "run es s1 = Some s'"
    by (auto split: option.splits)
  show ?case by (rule Cons.IH [OF r registry_step [OF Cons.prems(2) s1]])
qed

lemma registry_init: "\<forall>c\<in>set (conns init). registry_inv c"
  by (simp add: agent_defs registry_inv_def)

lemma registry_active: "registry_inv c \<Longrightarrow> active_tabs c = map fst (tabStates c)"
proof -
  assume "registry_inv c"
  then have "\<forall>p\<in>set (tabStates c). snd p = ''ON''" by (auto simp: registry_inv_def)
  then have "filter (\<lambda>p. snd p = ''ON'') (tabStates c) = tabStates c" by simp
  then show ?thesis by (simp add: active_tabs_def)
qed

lemma activated_sets:
  "t \<noteq> 0 \<Longrightarrow> i < length (conns s) \<Longrightarrow>
     (t, ''ON'') \<in> set (tabStates (conns (tab_onActivated t i s) ! i))"
  by (simp add: tab_onActivated_def Let_def upd_conn_def update_mem)

lemma activated_keeps:
  "i < length (conns s) \<Longrightarrow> (t, ''ON'') \<in> set (tabStates (conns s ! i)) \<Longrightarrow>
     (t, ''ON'') \<in> set (tabStates (conns (tab_onActivated t j s) ! i))"
  by (cases "j = i") (auto simp: tab_onActivated_def Let_def upd_conn_def update_mem)

lemma fold_activated_sets:
  "t \<noteq> 0 \<Longrightarrow> i < length (conns s) \<Longrightarrow>
     i \<in> set js \<or> (t, ''ON'') \<in> set (tabStates (conns s ! i)) \<Longrightarrow>
     (t, ''ON'') \<in> set (tabStates (conns (fold (tab_onActivated t) js s) ! i))"
proof (induction js arbitrary: s)
  case Nil
  then show ?case by simp
next
  case (Cons j js)
  have "(t, ''ON'') \<in> set (tabStates (conns (tab_onActivated t j s) ! i))
      \<or> i \<in> set js"
    using Cons.prems activated_sets [of t i s] activated_keeps [of i s t j] by auto
  then show ?case
    using Cons.IH [of "tab_onActivated t j s"] Cons.prems(1,2) by auto
qed

lemma nth_update_field:
  "(\<And>c. g (f c) = g c) \<Longrightarrow> i < length xs \<Longrightarrow> g ((xs[j := f (xs ! j)]) ! i) = g (xs ! i)"
  by (cases "j = i") simp_all

lemma fold_activated_tabStates:
  "i < length (conns s) \<Longrightarrow>
     tabStates (conns (fold (tab_onActivated t) js s) ! i) =
       (if i \<in> set js \<and> t \<noteq> 0 then AList.update t ''ON'' (tabStates (conns s ! i))
        else tabStates (conns s ! i))"
proof (induction js arbitrary: s)
  case Nil
  then show ?case by simp
next
  case (Cons j js)
  have one: "tabStates (conns (tab_onActivated t j s) ! i) =
      (if j = i \<and> t \<noteq> 0 then AList.update t ''ON'' (tabStates (conns s ! i))
       else tabStates (conns s ! i))"
    using Cons.prems by (auto simp: tab_onActivated_def Let_def upd_conn_def)
  have "i < length (conns (tab_onActivated t j s))" using Cons.prems by simp
  from Cons.IH [OF this] one show ?case by auto
qed

lemma fold_removed_tabStates:
  "i < length (conns s) \<Longrightarrow>
     tabStates (conns (fold (tab_onRemoved t) js s) ! i) =
       (if i \<in> set js then AList.delete t (tabStates (conns s ! i))
        else tabStates (conns s ! i))"
proof (induction js arbitrary: s)
  case Nil
  then show ?case by simp
next
  case (Cons j js)
  have one: "tabStates (conns (tab_onRemoved t j s) ! i) =
      (if j = i then AList.delete t (tabStates (conns s ! i))
       else tabStates (conns s ! i))"
    using Cons.prems by (auto simp: tab_onRemoved_def upd_conn_def)
  have "i < length (conns (tab_onRemoved t j s))" using Cons.prems by simp
  from Cons.IH [OF this] one show ?case by (auto simp: delete_idem)
qed

lemma step_onRemoved:
  "step e s = Some s' \<Longrightarrow> onRemoved s' = onRemoved s @ opened [e]"
  by (cases e)
    (auto simp: ws_onopen_def ws_onmessage_def query_callback_def ws_onclose_def
      ws_onerror_def connect_def split: if_splits)

lemma tracks_step:
  assumes tr: "tracks s i p" and st: "step e s = Some s'"
  shows "tracks s' i (track i e p)"
proof -
  obtain reg xs where p: "p = (reg, xs)" by (cases p)
  have eq: "onRemoved s = onActivated s"
    and reg: "reg \<longleftrightarrow> i \<in> set (onActivated s)"
    and inr: "i < length (conns s) \<Longrightarrow> map fst (tabStates (conns s ! i)) = xs"
    and out: "\<not> i < length (conns s) \<Longrightarrow> xs = [] \<and> \<not> reg"
    using tr by (auto simp: tracks_def p split: if_splits)
  have eq': "onRemoved s' = onActivated s'"
    using step_onRemoved [OF st] step_onActivated [OF st] eq by simp
  show ?thesis
  proof (cases e)
    case (Open j)
    then have j: "j < length (conns s)" using st by (auto split: if_splits)
    have "conns s' = (conns s)[j := (conns s ! j)\<lparr>link := OPEN\<rparr>]"
      using Open st by (auto simp: ws_onopen_def upd_conn_def split: if_splits)
    then have "i < length (conns s) \<Longrightarrow> tabStates (conns s' ! i) = tabStates (conns s ! i)"
      "length (conns s') = length (conns s)"
      by (simp_all add: nth_update_field)
    then show ?thesis
      using Open eq' reg inr out j step_onActivated [OF st]
      by (auto simp: tracks_def p)
  next
    case (Message j d)
    have "conns s' = (conns s)[j := (conns s ! j)\<lparr>recording := (d = ''start'')\<rparr>]"
      using Message st by (auto simp: ws_onmessage_def upd_conn_def split: if_splits)
    then have "i < length (conns s) \<Longrightarrow> tabStates (conns s' ! i) = tabStates (conns s ! i)"
      "length (conns s') = length (conns s)"
      by (simp_all add: nth_update_field)
    then show ?thesis
      using Message eq' reg inr out step_onActivated [OF st]
      by (auto simp: tracks_def p)
  next
    case (Close j)
    have "conns s' = (conns s)[j := (conns s ! j)\<lparr>link := CLOSED\<rparr>]"
      using Close st by (auto simp: ws_onclose_def upd_conn_def split: if_splits)
    then have "i < length (conns s) \<Longrightarrow> tabStates (conns s' ! i) = tabStates (conns s ! i)"
      "length (conns s') = length (conns s)"
      by (simp_all add: nth_update_field)
    then show ?thesis
      using Close eq' reg inr out step_onActivated [OF st]
      by (auto simp: tracks_def p)
  next
    case Timer
    then have "conns s' = conns s @ [\<lparr>link = CONNECTING, recording = False, tabStates = []\<rparr>]"
      using st by (auto simp: connect_def split: if_splits)
    then show ?thesis
      using Timer eq' reg inr out step_onActivated [OF st]
      by (auto simp: tracks_def p nth_append)
  next
    case (Activated t)
    then have s': "s' = fold (tab_onActivated t) (onActivated s) s" using st by simp
    show ?thesis
      using Activated eq' reg inr out step_onActivated [OF st]
        fold_activated_tabStates [of i s t "onActivated s"]
      by (auto simp: tracks_def p s' update_keys)
  next
    case (Removed t)
    then have s': "s' = fold (tab_onRemoved t) (onRemoved s) s" using st by simp
    show ?thesis
      using Removed eq' eq reg inr out step_onActivated [OF st]
        fold_removed_tabStates [of i s t "onRemoved s"]
      by (auto simp: tracks_def p s' delete_keys)
  next
    case (Queried n ts)
    then have "conns s' = conns s"
      using st by (auto simp: query_callback_def split: if_splits)
    then show ?thesis
      using Queried eq' reg inr out step_onActivated [OF st] by (auto simp: tracks_def p)
  next
    case (Error j)
    then have "conns s' = conns s"
      using st by (auto simp: ws_onerror_def split: if_splits)
    then show ?thesis
      using Error eq' reg inr out step_onActivated [OF st] by (auto simp: tracks_def p)
  next
    case (Resolved n)
    then have "conns s' = conns s" using st by (auto split: if_splits)
    then show ?thesis
      using Resolved eq' reg inr out step_onActivated [OF st] by (auto simp: tracks_def p)
  next
    case (Rejected n)
    then have "conns s' = conns s" using st by (auto split: if_splits)
    then show ?thesis
      using Rejected eq' reg inr out step_onActivated [OF st] by (auto simp: tracks_def p)
  qed
qed

lemma tracks_run:
  "run es s = Some s' \<Longrightarrow> tracks s i p \<Longrightarrow> tracks s' i (fold (track i) es p)"
proof (induction es arbitrary: s p)
  case Nil
  then show ?case by simp
next
  case (Cons e es)
  from Cons.prems(1) obtain sa where sa: "step e s = Some sa" and r: "run es sa = Some s'"
    by (auto split: option.splits)
  show ?case
    using Cons.IH [OF r tracks_step [OF Cons.prems(2) sa]] by simp
qed

lemma tracks_init: "tracks init i (False, [])"
  by (simp add: tracks_def agent_defs)

lemma run_tracked:
  assumes "run es init = Some s" and "i < length (conns s)"
  shows "map fst (tabStates (conns s ! i)) = tracked i es"
  using tracks_run [OF assms(1) tracks_init, of i] assms(2)
  by (simp add: tracks_def tracked_def)

text \<open>
  C2, as the code has it. The listener stores \<^verbatim>\<open>'ON'\<close> without looking at
  \<^verbatim>\<open>recording\<close>, and no live code stores anything else. So in every reachable state
  every record of every registry is active, under a non-zero tab id and once per id. The
  active tabs of a connection's registry are exactly those the trace gives it: the tabs
  with a non-zero id activated since the connection opened and not removed after their
  latest activation, whatever the commands received. And a tab-activated event with a
  non-zero id leaves that tab active in the registry of every connection that has
  opened, whatever the Session.
\<close>

theorem every_record_is_on:
  "run es init = Some s \<Longrightarrow>
     (c \<in> set (conns s) \<longrightarrow>
        active_tabs c = map fst (tabStates c) \<and> distinct (active_tabs c)
        \<and> 0 \<notin> set (active_tabs c))
     \<and> (j < length (conns s) \<longrightarrow> registry j s = tracked j es)
     \<and> (t \<noteq> 0 \<longrightarrow> i \<in> set (onActivated s) \<longrightarrow> step (Activated t) s = Some s' \<longrightarrow>
          t \<in> set (active_tabs (conns s' ! i)))"
proof -
  assume r: "run es init = Some s"
  have reg: "\<forall>c\<in>set (conns s). registry_inv c"
    by (rule registry_run [OF r registry_init])
  have inv: "agent_inv s" using agent_inv_run [OF r agent_inv_init] .
  have first: "active_tabs c = map fst (tabStates c) \<and> distinct (active_tabs c)
      \<and> 0 \<notin> set (active_tabs c)" if "c \<in> set (conns s)" for c
    using reg that registry_active [of c] by (force simp: registry_inv_def)
  have third: "t \<in> set (active_tabs (conns s' ! i))"
    if t: "t \<noteq> 0" and i: "i \<in> set (onActivated s)" and st: "step (Activated t) s = Some s'"
  proof -
    have len: "i < length (conns s)" using inv i by (auto simp: agent_inv_def)
    have s': "s' = fold (tab_onActivated t) (onActivated s) s" using st by simp
    have "(t, ''ON'') \<in> set (tabStates (conns s' ! i))"
      unfolding s' using fold_activated_sets [OF t len, of "onActivated s"] i by simp
    then show ?thesis by (force simp: active_tabs_def)
  qed
  have second: "registry j s = tracked j es" if j: "j < length (conns s)"
  proof -
    have "conns s ! j \<in> set (conns s)" using j by simp
    then have "active_tabs (conns s ! j) = map fst (tabStates (conns s ! j))"
      using first [of "conns s ! j"] reg registry_active by blast
    then show ?thesis using run_tracked [OF r j] by (simp add: registry_def)
  qed
  show ?thesis using first second third by blast
qed

theorem every_record_is_on_witness:
  "tracked 0 [Open 0, Activated 7, Activated 8, Close 0, Timer, Open 1, Activated 9, Removed 7]
     = [8, 9]
   \<and> tracked 1 [Open 0, Activated 7, Activated 8, Close 0, Timer, Open 1, Activated 9, Removed 7]
     = [9]
   \<and> map_option session
       (run [Open 0, Activated 7, Activated 8, Close 0, Timer, Open 1, Activated 9, Removed 7] init)
     = Some IDLE
   \<and> map_option (registry 0)
       (run [Open 0, Activated 7, Activated 8, Close 0, Timer, Open 1, Activated 9, Removed 7] init)
     = Some [8, 9]
   \<and> map_option (registry 1)
       (run [Open 0, Activated 7, Activated 8, Close 0, Timer, Open 1, Activated 9, Removed 7] init)
     = Some [9]
   \<and> map_option (registry 1)
       (run [Open 0, Activated 7, Activated 8, Close 0, Timer, Open 1, Activated 9, Removed 7,
             Activated 5] init)
     = Some [9, 5]"
  using every_record_is_on
    [where es = "[Open 0, Activated 7, Activated 8, Close 0, Timer, Open 1, Activated 9, Removed 7]"
      and s = "the (run [Open 0, Activated 7, Activated 8, Close 0, Timer, Open 1, Activated 9,
                         Removed 7] init)"
      and c = "cur (the (run [Open 0, Activated 7, Activated 8, Close 0, Timer, Open 1,
                              Activated 9, Removed 7] init))"
      and j = 1 and t = 5 and i = 1
      and s' = "the (run [Open 0, Activated 7, Activated 8, Close 0, Timer, Open 1, Activated 9,
                          Removed 7, Activated 5] init)"]
  by (simp add: agent_defs view_defs registry_def tracked_def)

text \<open>
  C2 fails as stated: under \<open>IDLE\<close> a focused tab gets an active record, and under
  \<open>RECORDING\<close> two tabs focused one after the other are both active.
\<close>

theorem registry_ignores_session:
  "map_option session (run [Open 0, Activated 7] init) = Some IDLE
   \<and> map_option (active_tabs \<circ> cur) (run [Open 0, Activated 7] init) = Some [7]
   \<and> map_option (spec_registry_invariant \<circ> cur) (run [Open 0, Activated 7] init) = Some False
   \<and> map_option session (run [Open 0, Message 0 ''start'', Activated 1, Activated 2] init)
       = Some RECORDING
   \<and> map_option (active_tabs \<circ> cur)
       (run [Open 0, Message 0 ''start'', Activated 1, Activated 2] init) = Some [1, 2]
   \<and> map_option (spec_registry_invariant \<circ> cur)
       (run [Open 0, Message 0 ''start'', Activated 1, Activated 2] init) = Some False"
  by (simp add: agent_defs view_defs spec_registry_invariant_def)

section \<open>Reconciliation on command frames\<close>

lemma length_remove_nth: "n < length xs \<Longrightarrow> Suc (length (remove_nth n xs)) = length xs"
  by (auto simp: remove_nth_def)

lemma step_queries:
  "step e s = Some s' \<Longrightarrow>
     length (queries s') + num_callbacks [e] = length (queries s) + num_frames [e]"
  by (cases e)
    (auto simp: ws_onopen_def ws_onmessage_def query_callback_def ws_onclose_def
      ws_onerror_def connect_def dest: length_remove_nth split: if_splits)

lemma num_Cons:
  "num_frames (e # es) = num_frames [e] + num_frames es"
  "num_callbacks (e # es) = num_callbacks [e] + num_callbacks es"
  by (cases e; simp)+

lemma run_queries:
  "run es s = Some s' \<Longrightarrow>
     length (queries s') + num_callbacks es = length (queries s) + num_frames es"
proof (induction es arbitrary: s)
  case Nil
  then show ?case by simp
next
  case (Cons e es)
  from Cons.prems obtain s1 where s1: "step e s = Some s1" and r: "run es s1 = Some s'"
    by (auto split: option.splits)
  show ?case
    using Cons.IH [OF r] step_queries [OF s1] num_Cons [of e es] by simp
qed

text \<open>
  C5, as the code has it. \<^verbatim>\<open>ws.onmessage\<close> calls \<^verbatim>\<open>chrome.tabs.query\<close> on every frame
  and does not compare the frame with the current command: each frame schedules exactly
  one reconciliation, so the callbacks run and the queries outstanding add up to the
  frames received, and each callback issues the instructions of \<open>dispatch\<close> for the
  command current when it runs.
\<close>

theorem every_frame_reconciles:
  "(step (Message i d) s = Some s' \<longrightarrow> queries s' = queries s @ [i])
   \<and> (run es init = Some sa \<longrightarrow> length (queries sa) + num_callbacks es = num_frames es)
   \<and> (step (Queried n ts) sb = Some sc \<longrightarrow>
        outbox sc = outbox sb @ dispatch (recording (conns sb ! (queries sb ! n))) ts)"
proof -
  have "length (queries sa) + num_callbacks es = num_frames es" if "run es init = Some sa"
    using run_queries [OF that] by (simp add: agent_defs)
  then show ?thesis
    by (auto simp: ws_onmessage_def query_callback_def split: if_splits)
qed

theorem every_frame_reconciles_witness:
  "map_option session (run [Open 0, Message 0 ''start''] init) = Some RECORDING
   \<and> map_option queries (run [Open 0, Message 0 ''start'', Message 0 ''start''] init)
       = Some [0, 0]
   \<and> num_frames [Open 0, Message 0 ''start'', Message 0 ''start''] = 2
   \<and> map_option outbox
       (run [Open 0, Message 0 ''start'', Message 0 ''start'', Queried 0 [Some 5]] init)
       = Some [(5, ''activateInspector''), (5, ''activateNotification'')]"
  using every_frame_reconciles
    [where i = 0 and d = "''start''" and s = "the (run [Open 0, Message 0 ''start''] init)"
      and s' = "the (run [Open 0, Message 0 ''start'', Message 0 ''start''] init)"
      and es = "[Open 0, Message 0 ''start'', Message 0 ''start'']"
      and sa = "the (run [Open 0, Message 0 ''start'', Message 0 ''start''] init)"
      and n = 0 and ts = "[Some 5]"
      and sb = "the (run [Open 0, Message 0 ''start'', Message 0 ''start''] init)"
      and sc = "the (run [Open 0, Message 0 ''start'', Message 0 ''start'', Queried 0 [Some 5]] init)"]
  by (simp add: agent_defs view_defs)

text \<open>
  C5 fails as stated: the Session is \<open>IDLE\<close>, a \<^verbatim>\<open>"stop"\<close> frame arrives, and the
  focused tab is sent both deactivation instructions.
\<close>

theorem matching_frame_still_reconciles:
  "map_option session (run [Open 0] init) = Some IDLE
   \<and> map_option session (run [Open 0, Message 0 ''stop''] init) = Some IDLE
   \<and> map_option queries (run [Open 0, Message 0 ''stop''] init) = Some [0]
   \<and> map_option outbox (run [Open 0, Message 0 ''stop'', Queried 0 [Some 5]] init)
       = Some [(5, ''deactivateInspector''), (5, ''deactivateNotification'')]"
  by (simp add: agent_defs view_defs)

section \<open>Failed deliveries\<close>

lemma dispatch_all:
  "0 \<notin> set us \<Longrightarrow>
     dispatch r (map Some us) =
       concat (map (\<lambda>u. [(u, if r then ''activateInspector'' else ''deactivateInspector''),
                         (u, if r then ''activateNotification'' else ''deactivateNotification'')])
                 us)"
  by (induction us) auto

text \<open>
  C8. The claim is broken by the \<^verbatim>\<open>onActivated\<close> listener. While recording, tab 5 is
  focused and the promise of the inspector message is rejected: the listener awaits it
  with no \<^verbatim>\<open>try\<close>, so its run ends there, nothing is left suspended, and the
  notification message of the same reconciliation is never sent. Had the promise been
  fulfilled, it would have been; and the reconciliation of a command frame, which does
  not await, sends both messages to the same tab whatever becomes of them. The same
  happens with the two deactivation messages while idle.
\<close>

theorem rejected_inspector_message_drops_notification:
  "map_option outbox (run [Open 0, Message 0 ''start'', Activated 5, Rejected 0] init)
     = Some [(5, ''activateInspector'')]
   \<and> map_option pending (run [Open 0, Message 0 ''start'', Activated 5, Rejected 0] init)
     = Some []
   \<and> map_option outbox (run [Open 0, Message 0 ''start'', Activated 5, Resolved 0] init)
     = Some [(5, ''activateInspector''), (5, ''activateNotification'')]
   \<and> map_option outbox (run [Open 0, Message 0 ''start'', Queried 0 [Some 5]] init)
     = Some [(5, ''activateInspector''), (5, ''activateNotification'')]
   \<and> map_option outbox (run [Open 0, Activated 5, Rejected 0] init)
     = Some [(5, ''deactivateInspector'')]
   \<and> map_option outbox (run [Open 0, Message 0 ''stop'', Queried 0 [Some 5]] init)
     = Some [(5, ''deactivateInspector''), (5, ''deactivateNotification'')]"
  by (simp add: agent_defs view_defs)

end
